theory Spec2Isabelle
  imports Complex_Main "HOL-Library.Word"
begin

section \<open>Go strings and runtime panics\<close>

text \<open>
  A Go \<^verbatim>\<open>string\<close> is a sequence of bytes; \<^typ>\<open>string\<close> (a list of 8-bit
  \<^typ>\<open>char\<close>) models it byte for byte, and \<^const>\<open>length\<close> is Go's \<^verbatim>\<open>len\<close>.
  Indexing a string out of range panics in Go. The model returns \<^const>\<open>None\<close> there,
  and every function that indexes returns an \<^typ>\<open>'a option\<close> whose \<^const>\<open>None\<close>
  is that panic.
\<close>

definition byte_at :: "string \<Rightarrow> nat \<Rightarrow> char option" where
  "byte_at s i = (if i < length s then Some (s ! i) else None)"

text \<open>\<^verbatim>\<open>make([]byte, n)\<close> yields \<open>n\<close> zero bytes.\<close>

definition NUL :: char where
  "NUL = CHR 0x00"

definition make_bytes :: "nat \<Rightarrow> string" where
  "make_bytes n = replicate n NUL"

section \<open>commonPrefix\<close>

text \<open>
  The first loop of \<^verbatim>\<open>commonPrefix\<close> (\<^verbatim>\<open>for i := 1; i < vLen; i += 1\<close>), started
  at \<open>i\<close> with the current \<^verbatim>\<open>min\<close>, \<^verbatim>\<open>minLen\<close> and \<^verbatim>\<open>minIndex\<close>.
  \<^term>\<open>Inl r\<close> is the early \<^verbatim>\<open>return r\<close> from inside the loop; \<^term>\<open>Inr (mn, minLen, minIndex)\<close>
  is the state when the loop falls through.
\<close>

function shortest_loop ::
  "string list \<Rightarrow> nat \<Rightarrow> string \<Rightarrow> nat \<Rightarrow> nat \<Rightarrow> string + (string \<times> nat \<times> nat)" where
  "shortest_loop values i mn minLen minIndex =
     (if i < length values then
        (let st = values ! i in
         if st = [] then Inl []
         else
           (let lst = length st in
            if lst < minLen then shortest_loop values (i + 1) st lst (i + 0)
            else shortest_loop values (i + 1) mn minLen minIndex))
      else Inr (mn, minLen, minIndex))"
  by pat_completeness auto
termination
  by (relation "measure (\<lambda>(values, i, mn, minLen, minIndex). length values - i)") auto

text \<open>
  The inner loop \<^verbatim>\<open>for j, other := range values\<close> at byte position \<open>i\<close>, started at
  index \<open>j\<close>. It returns the value of \<^verbatim>\<open>matchOn\<close> when the loop is left (\<^verbatim>\<open>matchOn\<close> is
  \<^verbatim>\<open>true\<close> whenever the loop is entered), or \<^const>\<open>None\<close> when \<^verbatim>\<open>other[i]\<close> or
  \<^verbatim>\<open>min[i]\<close> is out of range.
\<close>

function match_others :: "string list \<Rightarrow> nat \<Rightarrow> string \<Rightarrow> nat \<Rightarrow> nat \<Rightarrow> bool option" where
  "match_others values minIndex mn i j =
     (if j < length values then
        (let other = values ! j in
         if minIndex = j then match_others values minIndex mn i (j + 1)
         else
           (case byte_at other i of
              None \<Rightarrow> None
            | Some a \<Rightarrow>
                (case byte_at mn i of
                   None \<Rightarrow> None
                 | Some b \<Rightarrow>
                     if a \<noteq> b then Some False
                     else match_others values minIndex mn i (j + 1))))
      else Some True)"
  by pat_completeness auto
termination
  by (relation "measure (\<lambda>(values, minIndex, mn, i, j). length values - j)") auto

text \<open>
  The outer loop \<^verbatim>\<open>for i := 0; i < minLen; i += 1\<close> over the byte positions, started at
  \<open>i\<close> with the current contents of \<^verbatim>\<open>prefix\<close>. It returns \<^verbatim>\<open>prefix\<close> as it is when the
  loop is left, by \<^verbatim>\<open>break\<close> or by its guard.
\<close>

function prefix_loop ::
  "string list \<Rightarrow> nat \<Rightarrow> string \<Rightarrow> nat \<Rightarrow> nat \<Rightarrow> string \<Rightarrow> string option" where
  "prefix_loop values minIndex mn minLen i prefix =
     (if i < minLen then
        (case match_others values minIndex mn i 0 of
           None \<Rightarrow> None
         | Some matchOn \<Rightarrow>
             if \<not> matchOn then Some prefix
             else
               (case byte_at mn i of
                  None \<Rightarrow> None
                | Some b \<Rightarrow>
                    if i < length prefix
                    then prefix_loop values minIndex mn minLen (i + 1) (prefix[i := b])
                    else None))
      else Some prefix)"
  by pat_completeness auto
termination
  by (relation "measure (\<lambda>(values, minIndex, mn, minLen, i, prefix). minLen - i)") auto

text \<open>
  \<^verbatim>\<open>func commonPrefix(values ...string) string\<close>. The result is \<^term>\<open>Some r\<close> when the
  function returns the string \<open>r\<close>.
\<close>

definition commonPrefix :: "string list \<Rightarrow> string option" where
  "commonPrefix values =
     (let vLen = length values in
      if vLen < 1 then Some []
      else
        (case shortest_loop values 1 (values ! 0) (length (values ! 0)) 0 of
           Inl r \<Rightarrow> Some r
         | Inr (mn, minLen, minIndex) \<Rightarrow>
             prefix_loop values minIndex mn minLen 0 (make_bytes minLen)))"

declare shortest_loop.simps [simp del]
declare match_others.simps [simp del]
declare prefix_loop.simps [simp del]

text \<open>
  The arguments agree with \<open>mn\<close> at byte position \<open>i\<close>: the condition the inner loop
  tests, stated over all arguments.
\<close>

definition agree_at :: "string list \<Rightarrow> string \<Rightarrow> nat \<Rightarrow> bool" where
  "agree_at vs mn i = (\<forall>v\<in>set vs. v ! i = mn ! i)"

section \<open>The functions of package \<^verbatim>\<open>strings\<close> the file calls\<close>

text \<open>
  \<^verbatim>\<open>strings.HasPrefix(s, prefix)\<close> is
  \<^verbatim>\<open>len(s) >= len(prefix) && s[:len(prefix)] == prefix\<close>.
\<close>

definition strings_HasPrefix :: "string \<Rightarrow> string \<Rightarrow> bool" where
  "strings_HasPrefix s pre = (length s \<ge> length pre \<and> take (length pre) s = pre)"

text \<open>
  \<^verbatim>\<open>strings.Index(s, substr)\<close>: the index of the first instance of \<open>substr\<close> in
  \<open>s\<close>; \<^const>\<open>None\<close> stands for Go's \<open>-1\<close>.
\<close>

fun strings_Index :: "string \<Rightarrow> string \<Rightarrow> nat option" where
  "strings_Index [] substr = (if substr = [] then Some 0 else None)"
| "strings_Index (c # s) substr =
     (if strings_HasPrefix (c # s) substr then Some 0
      else map_option Suc (strings_Index s substr))"

text \<open>\<^verbatim>\<open>strings.Join(elems, sep)\<close>.\<close>

fun strings_Join :: "string list \<Rightarrow> string \<Rightarrow> string" where
  "strings_Join [] sep = []"
| "strings_Join [a] sep = a"
| "strings_Join (a # b # elems) sep = a @ sep @ strings_Join (b # elems) sep"

text \<open>
  \<^verbatim>\<open>strings.Split(s, sep)\<close>: the loop of Go's \<^verbatim>\<open>genSplit\<close>, which cuts at each
  \<^verbatim>\<open>Index(s, sep)\<close> in turn. For an empty separator Go splits after each UTF-8
  sequence; the model does so after each byte, which is the same on ASCII text. This
  file only ever passes the separator \<^verbatim>\<open>"/"\<close>.
\<close>

lemma strings_Index_nonempty:
  "strings_Index s sep = Some m \<Longrightarrow> sep \<noteq> [] \<Longrightarrow> s \<noteq> []"
  by (cases s) auto

function strings_Split :: "string \<Rightarrow> string \<Rightarrow> string list" where
  "strings_Split s sep =
     (if sep = [] then map (\<lambda>c. [c]) s
      else
        (case strings_Index s sep of
           None \<Rightarrow> [s]
         | Some m \<Rightarrow> take m s # strings_Split (drop (m + length sep) s) sep))"
  by pat_completeness auto
termination
proof (relation "measure (\<lambda>(s, sep). length s)")
  show "wf (measure (\<lambda>(s, sep). length s))" by simp
next
  fix s sep :: string and m :: nat
  assume "sep \<noteq> []" and "strings_Index s sep = Some m"
  then have "s \<noteq> []" by (simp add: strings_Index_nonempty)
  with \<open>sep \<noteq> []\<close> show "((drop (m + length sep) s, sep), (s, sep)) \<in> measure (\<lambda>(s, sep). length s)"
    by simp
qed

text \<open>
  \<^verbatim>\<open>strings.Replace(s, old, new, n)\<close>: the first \<open>n\<close> non-overlapping instances of
  \<open>old\<close> replaced by \<open>new\<close>, all of them when \<open>n < 0\<close>. An empty \<open>old\<close> matches
  at the beginning of the string and after each UTF-8 sequence; the model takes each
  byte for a sequence, which is the same on ASCII text.
\<close>

function strings_Replace :: "string \<Rightarrow> string \<Rightarrow> string \<Rightarrow> int \<Rightarrow> string" where
  "strings_Replace s old new n =
     (if old = new \<or> n = 0 then s
      else if old = [] then
        new @ (case s of [] \<Rightarrow> [] | c # cs \<Rightarrow> c # strings_Replace cs old new (n - 1))
      else
        (case strings_Index s old of
           None \<Rightarrow> s
         | Some j \<Rightarrow> take j s @ new @ strings_Replace (drop (j + length old) s) old new (n - 1)))"
  by pat_completeness auto
termination
proof (relation "measure (\<lambda>(s, old, new, n). length s)")
  show "wf (measure (\<lambda>(s, old, new, n). length s))" by simp
next
  fix s old new :: string and n :: int and c :: char and cs :: string
  assume "s = c # cs"
  then show "((cs, old, new, n - 1), (s, old, new, n)) \<in> measure (\<lambda>(s, old, new, n). length s)"
    by simp
next
  fix s old new :: string and n :: int and j :: nat
  assume "old \<noteq> []" and "strings_Index s old = Some j"
  then have "s \<noteq> []" by (simp add: strings_Index_nonempty)
  with \<open>old \<noteq> []\<close>
  show "((drop (j + length old) s, old, new, n - 1), (s, old, new, n))
      \<in> measure (\<lambda>(s, old, new, n). length s)"
    by simp
qed

text \<open>
  \<^verbatim>\<open>strings.Trim(s, cutset)\<close> for a cutset of ASCII bytes (the two cutsets of this
  file are \<^verbatim>\<open>" "\<close> and \<^verbatim>\<open>"\n"\<close>): all leading and trailing bytes of \<open>s\<close> that
  are in the cutset removed.
\<close>

definition strings_Trim :: "string \<Rightarrow> string \<Rightarrow> string" where
  "strings_Trim s cutset =
     (if s = [] \<or> cutset = [] then s
      else rev (dropWhile (\<lambda>c. c \<in> set cutset) (rev (dropWhile (\<lambda>c. c \<in> set cutset) s))))"

declare strings_Split.simps [simp del]
declare strings_Replace.simps [simp del]

section \<open>remotePathSplit\<close>

text \<open>
  \<^verbatim>\<open>func remotePathSplit(p string) (dir, base string)\<close>. The slice expressions
  \<^verbatim>\<open>sp[:spl-1]\<close> and \<^verbatim>\<open>sp[spl-1:]\<close> panic when \<open>spl = 0\<close>; that panic is
  \<^const>\<open>None\<close>.
\<close>

definition remotePathSplit :: "string \<Rightarrow> (string \<times> string) option" where
  "remotePathSplit p =
     (let sp = strings_Split p ''/'';
          spl = length sp
      in if spl < 1 then None
         else
           (let dirL = take (spl - 1) sp;
                baseL = drop (spl - 1) sp;
                dir = strings_Join dirL ''/'';
                base = strings_Join baseL ''/''
            in Some (dir, base)))"

section \<open>readCommentedFile\<close>

text \<open>
  \<^verbatim>\<open>bufio.Scanner\<close> with its default split function \<^verbatim>\<open>ScanLines\<close>, reading a file
  whose remaining bytes are \<open>rest\<close> (reads that fail part-way are outside the model). A
  token is a line without its end-of-line marker, which is one optional carriage return
  and one newline; the last line may lack the newline. The scanner's buffer holds at most
  \<^verbatim>\<open>MaxScanTokenSize\<close> bytes: a line that does not end within them stops the scan with
  \<^verbatim>\<open>ErrTooLong\<close>, which \<^verbatim>\<open>Scan\<close> reports as \<^verbatim>\<open>false\<close>.
\<close>

definition MaxScanTokenSize :: nat where
  "MaxScanTokenSize = 64 * 1024"

definition dropCR :: "string \<Rightarrow> string" where
  "dropCR data = (if data \<noteq> [] \<and> last data = CHR 0x0D then butlast data else data)"

fun bytes_IndexByte :: "string \<Rightarrow> char \<Rightarrow> nat option" where
  "bytes_IndexByte [] c = None"
| "bytes_IndexByte (x # xs) c = (if x = c then Some 0 else map_option Suc (bytes_IndexByte xs c))"

text \<open>
  \<^verbatim>\<open>scanner.Scan()\<close> followed by \<^verbatim>\<open>scanner.Text()\<close>: \<^const>\<open>None\<close> when \<^verbatim>\<open>Scan\<close>
  returns \<^verbatim>\<open>false\<close> (end of input, or a line too long), otherwise the token and the
  bytes left to read.
\<close>

definition Scan :: "string \<Rightarrow> (string \<times> string) option" where
  "Scan rest =
     (if rest = [] then None
      else
        (case bytes_IndexByte rest (CHR 0x0A) of
           Some k \<Rightarrow>
             if k < MaxScanTokenSize then Some (dropCR (take k rest), drop (k + 1) rest)
             else None
         | None \<Rightarrow>
             if length rest < MaxScanTokenSize then Some (dropCR rest, []) else None))"

lemma Scan_shorter: "Scan rest = Some (line, rest') \<Longrightarrow> length rest' < length rest"
  by (auto simp: Scan_def split: if_splits option.splits)

text \<open>
  The loop of \<^verbatim>\<open>readCommentedFile\<close>, with the bytes left to scan and the
  \<^verbatim>\<open>clauses\<close> appended so far.
\<close>

function scan_loop :: "string \<Rightarrow> string \<Rightarrow> string list \<Rightarrow> string list" where
  "scan_loop rest comment clauses =
     (case Scan rest of
        None \<Rightarrow> clauses
      | Some (text, rest') \<Rightarrow>
          (let line = text;
               line = strings_Trim line '' '';
               line = strings_Trim line [CHR 0x0A]
           in if strings_HasPrefix line comment \<or> length line < 1
              then scan_loop rest' comment clauses
              else scan_loop rest' comment (clauses @ [line])))"
  by pat_completeness auto
termination
  by (relation "measure (\<lambda>(rest, comment, clauses). length rest)")
     (auto simp: Scan_shorter)

declare scan_loop.simps [simp del]

text \<open>
  The error of \<^verbatim>\<open>os.Open\<close> and \<^verbatim>\<open>os.Create\<close>, and the error of a write.
\<close>

datatype error = PathError string | WriteError string

text \<open>
  \<^verbatim>\<open>func readCommentedFile(p, comment string) (clauses []string, err error)\<close>.
  \<open>os_Open\<close> is the file system as \<^verbatim>\<open>os.Open\<close> shows it: for a path, the opened file
  (its bytes) or \<^verbatim>\<open>nil\<close>, and the error or \<^verbatim>\<open>nil\<close>. A \<^verbatim>\<open>nil\<close> slice and an empty
  slice are both \<^term>\<open>[]\<close>.
\<close>

definition readCommentedFile ::
  "(string \<Rightarrow> string option \<times> error option) \<Rightarrow> string \<Rightarrow> string \<Rightarrow> string list \<times> error option" where
  "readCommentedFile os_Open p comment =
     (let (f, fErr) = os_Open p in
      if fErr \<noteq> None \<or> f = None then ([], fErr)
      else
        (case f of
           Some content \<Rightarrow> (scan_loop content comment [], None)
         | None \<Rightarrow> ([], fErr)))"









section \<open>Desktop entries\<close>

text \<open>
  The structs. \<^verbatim>\<open>File\<close> and \<^verbatim>\<open>urlMimeTypeExt\<close> are declared in other files of the
  package; of \<^verbatim>\<open>File\<close> only the field \<^verbatim>\<open>Name\<close> is read here.
\<close>

record File =
  Name :: string

record urlMimeTypeExt =
  ext :: string
  mimeType :: string
  url :: string

record desktopEntry =
  name :: string
  url :: string
  icon :: string

definition MimeTypeJoiner :: string where
  "MimeTypeJoiner = ''-''"

text \<open>
  Modelled from the spec: the constant \<^verbatim>\<open>UnescapedPathSep\<close> is declared in another file
  of the package. The spec calls it the path-separator character, replaced in content
  types of the form \<^verbatim>\<open>type/subtype\<close>, and has \<^verbatim>\<open>application/pdf\<close> become
  \<^verbatim>\<open>application-pdf\<close>.
\<close>

definition UnescapedPathSep :: string where
  "UnescapedPathSep = ''/''"

definition sepJoin :: "string \<Rightarrow> string list \<Rightarrow> string" where
  "sepJoin sep args = strings_Join args sep"

definition toDesktopEntry :: "File \<Rightarrow> urlMimeTypeExt \<Rightarrow> desktopEntry" where
  "toDesktopEntry f urlMExt =
     (let name0 = Name f;
          name1 = (if ext urlMExt \<noteq> [] then sepJoin ''-'' [Name f, ext urlMExt] else name0)
      in \<lparr>name = name1, url = urlMimeTypeExt.url urlMExt, icon = mimeType urlMExt\<rparr>)"

text \<open>
  The text \<^verbatim>\<open>Fprintf\<close> formats: every verb is \<^verbatim>\<open>%s\<close> and every operand a string,
  so the operands are copied as they are.
\<close>

definition desktop_entry_text :: "string \<Rightarrow> string \<Rightarrow> string \<Rightarrow> string \<Rightarrow> string" where
  "desktop_entry_text icon_v name_v type_v url_v =
     ''[Desktop Entry]\<newline>Icon='' @ icon_v @ ''\<newline>Name='' @ name_v @
     ''\<newline>Type='' @ type_v @ ''\<newline>URL='' @ url_v @ ''\<newline>''"

text \<open>
  \<^verbatim>\<open>func (f *File) serializeAsDesktopEntry(destPath string, urlMExt *urlMimeTypeExt) (int, error)\<close>.
  The file system is a map from paths to contents, passed in and returned. What the
  operating system answers is given: \<open>create_fault\<close> is the error of \<^verbatim>\<open>os.Create\<close> if it
  fails, \<open>write_fault\<close> the number of bytes written and the error if the write fails.
  \<open>LinkKey\<close> is a string constant declared in another file of the package.
\<close>

definition serializeAsDesktopEntry ::
  "string \<Rightarrow> error option \<Rightarrow> (nat \<times> error) option \<Rightarrow> (string \<rightharpoonup> string) \<Rightarrow>
   File \<Rightarrow> string \<Rightarrow> urlMimeTypeExt \<Rightarrow> (nat \<times> error option) \<times> (string \<rightharpoonup> string)" where
  "serializeAsDesktopEntry LinkKey create_fault write_fault fs f destPath urlMExt =
     (let deskEnt = toDesktopEntry f urlMExt in
      case create_fault of
        Some err \<Rightarrow> ((0, Some err), fs)
      | None \<Rightarrow>
          (let fs1 = fs(destPath \<mapsto> []);
               icon_v = strings_Replace (icon deskEnt) UnescapedPathSep MimeTypeJoiner (- 1);
               out = desktop_entry_text icon_v (name deskEnt) LinkKey (desktopEntry.url deskEnt)
           in case write_fault of
                None \<Rightarrow> ((length out, None), fs1(destPath \<mapsto> out))
              | Some (n, err) \<Rightarrow>
                  ((min n (length out), Some err), fs1(destPath \<mapsto> take n out))))"

section \<open>prettyBytes\<close>

text \<open>
  \<^verbatim>\<open>int64\<close> is a 64-bit word read as a signed number. A \<^verbatim>\<open>float64\<close> that is finite is
  a rational number, and the arithmetic of the formatter is exact on rationals:
  \<^verbatim>\<open>float64(b)\<close> rounds \<open>b\<close> to 53 significant bits (to nearest, ties to even) and
  gives an integer of magnitude at most \<open>2^63\<close>; dividing such a number by 1024, at most
  five times while the quotient is at least 1, only lowers the binary exponent, so no
  division rounds.
\<close>

type_synonym int64 = "64 word"

fun bit_length :: "nat \<Rightarrow> nat" where
  "bit_length n = (if n = 0 then 0 else Suc (bit_length (n div 2)))"

definition round_to_53_bits :: "nat \<Rightarrow> nat" where
  "round_to_53_bits n =
     (let e = bit_length n - 53;
          q = n div 2 ^ e;
          r = n mod 2 ^ e
      in if e = 0 then n
         else if 2 * r > 2 ^ e \<or> (2 * r = 2 ^ e \<and> odd q) then (q + 1) * 2 ^ e
         else q * 2 ^ e)"

definition float64_of_int64 :: "int64 \<Rightarrow> rat" where
  "float64_of_int64 b =
     (let v = sint b in
      if v < 0 then - of_nat (round_to_53_bits (nat (- v)))
      else of_nat (round_to_53_bits (nat v)))"

definition BytesPerKB :: rat where
  "BytesPerKB = 1024"

definition suffixes :: "string list" where
  "suffixes = [''B'', ''KB'', ''MB'', ''GB'', ''TB'', ''PB'']"

definition maxLen :: nat where
  "maxLen = length suffixes - 1"

text \<open>
  \<^verbatim>\<open>fmt.Sprintf("%.2f%s", bf, suffix)\<close>. The verb \<^verbatim>\<open>%.2f\<close> prints the decimal
  expansion of the number rounded to two fractional digits, to nearest with ties to the
  even digit, after a minus sign when the number is negative.
\<close>

definition round_half_even :: "rat \<Rightarrow> int" where
  "round_half_even x =
     (let fl = \<lfloor>x\<rfloor>; d = x - of_int fl
      in if d < 1 / 2 then fl
         else if d > 1 / 2 then fl + 1
         else if even fl then fl else fl + 1)"

definition digit :: "nat \<Rightarrow> char" where
  "digit d = ''0123456789'' ! (d mod 10)"

fun decimal :: "nat \<Rightarrow> string" where
  "decimal n = (if n < 10 then [digit n] else decimal (n div 10) @ [digit (n mod 10)])"

definition format_2f :: "rat \<Rightarrow> string" where
  "format_2f x =
     (let n = nat (round_half_even (\<bar>x\<bar> * 100))
      in (if x < 0 then ''-'' else []) @ decimal (n div 100) @ ''.'' @
         [digit (n div 10), digit n])"

definition Sprintf_2f_s :: "rat \<Rightarrow> string \<Rightarrow> string" where
  "Sprintf_2f_s bf suffix = format_2f bf @ suffix"

text \<open>
  The \<^verbatim>\<open>for\<close> loop of the closure, entered with \<^verbatim>\<open>bf\<close> and \<^verbatim>\<open>i\<close>; it returns the
  \<^verbatim>\<open>description\<close> it breaks with, or \<^const>\<open>None\<close> if \<^verbatim>\<open>suffixes[i]\<close> is out of
  range.
\<close>

function describe_loop :: "rat \<Rightarrow> nat \<Rightarrow> string option" where
  "describe_loop bf i =
     (if bf / BytesPerKB < 1 \<or> i \<ge> maxLen then
        (if i < length suffixes then Some (Sprintf_2f_s bf (suffixes ! i)) else None)
      else describe_loop (bf / BytesPerKB) (i + 1))"
  by pat_completeness auto
termination
  by (relation "measure (\<lambda>(bf, i). maxLen - i)") auto

declare describe_loop.simps [simp del]

text \<open>
  The closure \<^verbatim>\<open>memoizeBytes\<close> returns, as a function of the \<^verbatim>\<open>cache\<close> it has captured:
  it returns the description and the cache after the call. \<^verbatim>\<open>memoizeBytes\<close> itself
  creates the empty cache.
\<close>

type_synonym cache = "int64 \<rightharpoonup> string"

definition byteDescription :: "cache \<Rightarrow> int64 \<Rightarrow> string option \<times> cache" where
  "byteDescription cache b =
     (case cache b of
        Some description \<Rightarrow> (Some description, cache)
      | None \<Rightarrow>
          (let bf = float64_of_int64 b in
           case describe_loop bf 0 of
             None \<Rightarrow> (None, cache)
           | Some description \<Rightarrow> (Some description, cache(b \<mapsto> description))))"

definition memoizeBytes :: cache where
  "memoizeBytes = Map.empty"

text \<open>
  \<^verbatim>\<open>var prettyBytes = memoizeBytes()\<close>: the cache of \<^verbatim>\<open>prettyBytes\<close> after the calls
  \<open>bs\<close>, in order, and the result of one more call.
\<close>

fun cache_after :: "cache \<Rightarrow> int64 list \<Rightarrow> cache" where
  "cache_after c [] = c"
| "cache_after c (b # bs) = cache_after (snd (byteDescription c b)) bs"

definition prettyBytes :: "int64 list \<Rightarrow> int64 \<Rightarrow> string option" where
  "prettyBytes history b = fst (byteDescription (cache_after memoizeBytes history) b)"

text \<open>
  The specification's words: while \<open>bf / 1024 \<ge> 1\<close> and \<open>i\<close> is below the index of \<^verbatim>\<open>PB\<close>, divide
  \<open>bf\<close> by 1024 and increment \<open>i\<close>; then format.
\<close>

function spec_unit_loop :: "rat \<Rightarrow> nat \<Rightarrow> rat \<times> nat" where
  "spec_unit_loop bf i = (if bf / 1024 \<ge> 1 \<and> i < 5 then spec_unit_loop (bf / 1024) (i + 1) else (bf, i))"
  by pat_completeness auto
termination
  by (relation "measure (\<lambda>(bf, i). 5 - i)") auto

declare spec_unit_loop.simps [simp del]

definition spec_prettyBytes :: "int64 \<Rightarrow> string" where
  "spec_prettyBytes b =
     (let (bf, i) = spec_unit_loop (float64_of_int64 b) 0
      in format_2f bf @ [''B'', ''KB'', ''MB'', ''GB'', ''TB'', ''PB''] ! i)"

text \<open>
  The invariant of the cache: every entry is the description of its key.
\<close>

definition cache_ok :: "cache \<Rightarrow> bool" where
  "cache_ok c = (\<forall>b d. c b = Some d \<longrightarrow> d = spec_prettyBytes b)"

section \<open>Properties of commonPrefix\<close>

lemma shortest_loop_Inl: "shortest_loop vs i mn minLen minIndex = Inl r \<Longrightarrow> r = []"
  by (induction vs i mn minLen minIndex rule: shortest_loop.induct)
     (subst (asm) shortest_loop.simps, auto simp: Let_def split: if_splits)

lemma shortest_loop_Inl_empty:
  "shortest_loop vs i mn minLen minIndex = Inl r \<Longrightarrow> \<exists>j. i \<le> j \<and> j < length vs \<and> vs ! j = []"
proof (induction vs i mn minLen minIndex rule: shortest_loop.induct)
  case (1 vs i mn minLen minIndex)
  show ?case
  proof (cases "i < length vs \<and> vs ! i \<noteq> []")
    case False
    with "1.prems" show ?thesis
      by (subst (asm) shortest_loop.simps) (auto simp: Let_def split: if_splits)
  next
    case True
    then have lt: "i < length vs" and ne: "vs ! i \<noteq> []" by auto
    have "\<exists>j. i + 1 \<le> j \<and> j < length vs \<and> vs ! j = []"
    proof (cases "length (vs ! i) < minLen")
      case True
      with lt ne "1.prems"
      have "shortest_loop vs (i + 1) (vs ! i) (length (vs ! i)) (i + 0) = Inl r"
        by (subst (asm) shortest_loop.simps) (simp add: Let_def)
      from "1.IH"(1)[OF lt refl ne refl True this] show ?thesis .
    next
      case False
      with lt ne "1.prems"
      have "shortest_loop vs (i + 1) mn minLen minIndex = Inl r"
        by (subst (asm) shortest_loop.simps) (simp add: Let_def)
      from "1.IH"(2)[OF lt refl ne refl False this] show ?thesis .
    qed
    then obtain j where "i + 1 \<le> j" "j < length vs" "vs ! j = []" by blast
    then have "i \<le> j \<and> j < length vs \<and> vs ! j = []" by simp
    then show ?thesis by blast
  qed
qed

lemma shortest_loop_Inr:
  "shortest_loop vs i mn minLen minIndex = Inr (m, l, k) \<Longrightarrow>
   minLen = length mn \<Longrightarrow> minIndex < length vs \<Longrightarrow> mn = vs ! minIndex \<Longrightarrow>
   (\<forall>j<i. j < length vs \<longrightarrow> length mn \<le> length (vs ! j)) \<Longrightarrow>
   k < length vs \<and> m = vs ! k \<and> l = length m \<and>
   (\<forall>j<length vs. length m \<le> length (vs ! j))"
proof (induction vs i mn minLen minIndex rule: shortest_loop.induct)
  case (1 vs i mn minLen minIndex)
  show ?case
  proof (cases "i < length vs")
    case False
    with "1.prems" show ?thesis
      by (subst (asm) shortest_loop.simps) auto
  next
    case True
    note lt = this
    show ?thesis
    proof (cases "vs ! i = []")
      case True
      with lt "1.prems"(1) show ?thesis
        by (subst (asm) shortest_loop.simps) (simp add: Let_def)
    next
      case False
      note ne = this
      show ?thesis
      proof (cases "length (vs ! i) < minLen")
        case True
        with lt ne "1.prems"(1)
        have r: "shortest_loop vs (i + 1) (vs ! i) (length (vs ! i)) (i + 0) = Inr (m, l, k)"
          by (subst (asm) shortest_loop.simps) (simp add: Let_def)
        have a: "\<forall>j<i + 1. j < length vs \<longrightarrow> length (vs ! i) \<le> length (vs ! j)"
          using "1.prems"(2,5) True by (auto simp: less_Suc_eq)
        have b: "i + 0 < length vs" "vs ! i = vs ! (i + 0)" using lt by simp_all
        show ?thesis by (rule "1.IH"(1)[OF lt refl ne refl True r refl b a])
      next
        case False
        with lt ne "1.prems"(1)
        have r: "shortest_loop vs (i + 1) mn minLen minIndex = Inr (m, l, k)"
          by (subst (asm) shortest_loop.simps) (simp add: Let_def)
        have a: "\<forall>j<i + 1. j < length vs \<longrightarrow> length mn \<le> length (vs ! j)"
          using "1.prems"(2,5) False by (auto simp: less_Suc_eq)
        show ?thesis by (rule "1.IH"(2)[OF lt refl ne refl False r "1.prems"(2,3,4) a])
      qed
    qed
  qed
qed

lemma match_others_agree:
  "\<forall>v\<in>set vs. i < length v \<Longrightarrow> i < length mn \<Longrightarrow>
   match_others vs minIndex mn i j =
     Some (\<forall>j'. j \<le> j' \<and> j' < length vs \<and> j' \<noteq> minIndex \<longrightarrow> vs ! j' ! i = mn ! i)"
proof (induction vs minIndex mn i j rule: match_others.induct)
  case (1 vs minIndex mn i j)
  show ?case
  proof (cases "j < length vs")
    case False
    then show ?thesis by (subst match_others.simps) auto
  next
    case True
    note lt = this
    then have bo: "byte_at (vs ! j) i = Some (vs ! j ! i)" and bm: "byte_at mn i = Some (mn ! i)"
      using "1.prems" by (simp_all add: byte_at_def)
    have step: "\<And>P. (\<forall>j'. j \<le> j' \<and> P j' \<longrightarrow> vs ! j' ! i = mn ! i) \<longleftrightarrow>
        ((P j \<longrightarrow> vs ! j ! i = mn ! i) \<and> (\<forall>j'. j + 1 \<le> j' \<and> P j' \<longrightarrow> vs ! j' ! i = mn ! i))"
      by (metis Suc_eq_plus1 Suc_leI le_neq_implies_less order_refl Suc_leD)
    show ?thesis
    proof (cases "minIndex = j")
      case True
      have "match_others vs minIndex mn i j = match_others vs minIndex mn i (j + 1)"
        using lt True by (subst match_others.simps) simp
      also have "\<dots> = Some (\<forall>j'. j + 1 \<le> j' \<and> j' < length vs \<and> j' \<noteq> minIndex \<longrightarrow> vs ! j' ! i = mn ! i)"
        by (rule "1.IH"(1)[OF lt refl True "1.prems"])
      finally show ?thesis using True step[of "\<lambda>j'. j' < length vs \<and> j' \<noteq> minIndex"] by simp
    next
      case False
      note nm = this
      show ?thesis
      proof (cases "vs ! j ! i = mn ! i")
        case False
        have "match_others vs minIndex mn i j = Some False"
          using lt nm False bo bm by (subst match_others.simps) simp
        then show ?thesis using lt nm False by auto
      next
        case True
        have "match_others vs minIndex mn i j = match_others vs minIndex mn i (j + 1)"
          using lt nm True bo bm by (subst match_others.simps) simp
        also have "\<dots> = Some (\<forall>j'. j + 1 \<le> j' \<and> j' < length vs \<and> j' \<noteq> minIndex \<longrightarrow> vs ! j' ! i = mn ! i)"
          using True by (intro "1.IH"(2)[OF lt refl nm bo bm _ "1.prems"]) simp
        finally show ?thesis using True step[of "\<lambda>j'. j' < length vs \<and> j' \<noteq> minIndex"] by simp
      qed
    qed
  qed
qed

lemma match_others_agree_at:
  assumes "\<forall>v\<in>set vs. i < length v" "minIndex < length vs" "mn = vs ! minIndex"
  shows "match_others vs minIndex mn i 0 = Some (agree_at vs mn i)"
proof -
  have "i < length mn" using assms by simp
  from match_others_agree[OF assms(1) this, of minIndex 0]
  have "match_others vs minIndex mn i 0 =
     Some (\<forall>j'. j' < length vs \<and> j' \<noteq> minIndex \<longrightarrow> vs ! j' ! i = mn ! i)" by simp
  moreover have "(\<forall>j'. j' < length vs \<and> j' \<noteq> minIndex \<longrightarrow> vs ! j' ! i = mn ! i) = agree_at vs mn i"
    unfolding agree_at_def using assms(3) by (metis in_set_conv_nth)
  ultimately show ?thesis by simp
qed

lemma padded_update:
  "i < length mn \<Longrightarrow>
   (take i mn @ replicate (length mn - i) c)[i := mn ! i] =
   take (i + 1) mn @ replicate (length mn - (i + 1)) c"
proof -
  assume lt: "i < length mn"
  then have r: "replicate (length mn - i) c = c # replicate (length mn - (i + 1)) c"
    by (cases "length mn - i") auto
  have l: "length (take i mn) = i" using lt by simp
  have "(take i mn @ c # replicate (length mn - (i + 1)) c)[length (take i mn) := mn ! i] =
     take i mn @ mn ! i # replicate (length mn - (i + 1)) c"
    by (rule list_update_length)
  then show ?thesis using lt by (simp only: r l) (simp add: take_Suc_conv_app_nth)
qed

lemma prefix_loop_padded:
  assumes "\<forall>v\<in>set vs. length mn \<le> length v" "minIndex < length vs" "mn = vs ! minIndex"
    and "p \<le> length mn" "\<forall>i'<p. agree_at vs mn i'" "p = length mn \<or> \<not> agree_at vs mn p"
  shows "i \<le> p \<Longrightarrow>
    prefix_loop vs minIndex mn (length mn) i (take i mn @ replicate (length mn - i) c) =
      Some (take p mn @ replicate (length mn - p) c)"
proof (induction "p - i" arbitrary: i)
  case 0
  then have ip: "i = p" by simp
  show ?case
  proof (cases "p = length mn")
    case True
    then show ?thesis using ip by (subst prefix_loop.simps) simp
  next
    case False
    then have lt: "p < length mn" and na: "\<not> agree_at vs mn p" using assms(4,6) by auto
    have "\<forall>v\<in>set vs. p < length v" using lt assms(1) by auto
    from match_others_agree_at[OF this assms(2,3)] na
    have "match_others vs minIndex mn p 0 = Some False" by simp
    then show ?thesis using ip lt by (subst prefix_loop.simps) simp
  qed
next
  case (Suc n)
  then have lt: "i < p" by simp
  then have ilt: "i < length mn" using assms(4) by simp
  have "\<forall>v\<in>set vs. i < length v" using ilt assms(1) by auto
  from match_others_agree_at[OF this assms(2,3)] assms(5) lt
  have m: "match_others vs minIndex mn i 0 = Some True" by simp
  have b: "byte_at mn i = Some (mn ! i)" using ilt by (simp add: byte_at_def)
  have "prefix_loop vs minIndex mn (length mn) i (take i mn @ replicate (length mn - i) c) =
    prefix_loop vs minIndex mn (length mn) (i + 1)
      ((take i mn @ replicate (length mn - i) c)[i := mn ! i])"
    using ilt m b by (subst prefix_loop.simps) simp
  also have "\<dots> = prefix_loop vs minIndex mn (length mn) (i + 1)
      (take (i + 1) mn @ replicate (length mn - (i + 1)) c)"
    using padded_update[OF ilt] by simp
  also have "\<dots> = Some (take p mn @ replicate (length mn - p) c)"
    using Suc lt by (intro Suc.hyps(1)) auto
  finally show ?case .
qed

lemma commonPrefix_unfold:
  "0 < length vs \<Longrightarrow> commonPrefix vs =
     (case shortest_loop vs 1 (vs ! 0) (length (vs ! 0)) 0 of
        Inl r \<Rightarrow> Some r
      | Inr (mn, minLen, minIndex) \<Rightarrow> prefix_loop vs minIndex mn minLen 0 (make_bytes minLen))"
  by (simp add: commonPrefix_def)

lemma mismatch_position_exists:
  "\<exists>p\<le>length m. (\<forall>i<p. agree_at vs m i) \<and> (p = length m \<or> \<not> agree_at vs m p)"
proof (cases "\<exists>k<length m. \<not> agree_at vs m k")
  case False
  then show ?thesis by (intro exI[of _ "length m"]) auto
next
  case True
  define p where "p = (LEAST k. k < length m \<and> \<not> agree_at vs m k)"
  have a: "p < length m \<and> \<not> agree_at vs m p"
    unfolding p_def using True by (rule LeastI_ex)
  have "\<forall>i<p. agree_at vs m i"
  proof (intro allI impI)
    fix i assume "i < p"
    then have "\<not> (i < length m \<and> \<not> agree_at vs m i)"
      unfolding p_def by (rule not_less_Least)
    with \<open>i < p\<close> a show "agree_at vs m i" by simp
  qed
  with a show ?thesis by (intro exI[of _ p]) auto
qed

text \<open>
  What \<^const>\<open>commonPrefix\<close> returns, for any shortest argument \<open>m\<close> and the position
  \<open>p\<close> where the comparison stops: the first \<open>p\<close> bytes of \<open>m\<close>, then zero bytes up to the
  length of \<open>m\<close>.
\<close>

lemma commonPrefix_padded:
  assumes "m \<in> set vs" "\<forall>v\<in>set vs. length m \<le> length v"
    and "p \<le> length m" "\<forall>i<p. agree_at vs m i" "p = length m \<or> \<not> agree_at vs m p"
  shows "commonPrefix vs = Some (take p m @ replicate (length m - p) NUL)"
proof -
  from assms(1) have ne: "0 < length vs" by (cases vs) auto
  show ?thesis
  proof (cases "shortest_loop vs 1 (vs ! 0) (length (vs ! 0)) 0")
    case (Inl r)
    then have r: "r = []" by (rule shortest_loop_Inl)
    from shortest_loop_Inl_empty[OF Inl] obtain j where "j < length vs" "vs ! j = []" by blast
    then have "[] \<in> set vs" by (metis nth_mem)
    with assms(2) have "length m = 0" by fastforce
    then show ?thesis unfolding commonPrefix_unfold[OF ne] Inl r by simp
  next
    case (Inr t)
    obtain m' l k where t: "t = (m', l, k)" by (cases t)
    have "k < length vs \<and> m' = vs ! k \<and> l = length m' \<and>
        (\<forall>j<length vs. length m' \<le> length (vs ! j))"
      by (rule shortest_loop_Inr[OF Inr[unfolded t] refl ne refl]) simp
    then have k: "k < length vs" and m': "m' = vs ! k" and l: "l = length m'"
      and least: "\<forall>j<length vs. length m' \<le> length (vs ! j)" by auto
    have m'in: "m' \<in> set vs" using k m' by simp
    have least': "\<forall>v\<in>set vs. length m' \<le> length v" using least by (metis in_set_conv_nth)
    have len: "length m' = length m"
      using assms(1,2) m'in least' by (simp add: le_antisym)
    have ag: "\<forall>i<p. agree_at vs m' i"
      using assms(4) m'in unfolding agree_at_def by simp
    have tk: "take p m' = take p m"
      using assms(3,4) m'in len unfolding agree_at_def by (intro nth_take_lemma) auto
    have stop: "p = length m' \<or> \<not> agree_at vs m' p"
    proof (cases "p = length m")
      case True
      then show ?thesis using len by simp
    next
      case False
      with assms(5) obtain v where v: "v \<in> set vs" "v ! p \<noteq> m ! p"
        unfolding agree_at_def by blast
      show ?thesis
      proof (cases "m' ! p = m ! p")
        case True
        with v show ?thesis unfolding agree_at_def by auto
      next
        case False
        with assms(1) show ?thesis unfolding agree_at_def by metis
      qed
    qed
    have "prefix_loop vs k m' (length m') 0 (take 0 m' @ replicate (length m' - 0) NUL) =
        Some (take p m' @ replicate (length m' - p) NUL)"
      using assms(3) len by (intro prefix_loop_padded[OF least' k m' _ ag stop]) auto
    then have "prefix_loop vs k m' l 0 (make_bytes l) =
        Some (take p m @ replicate (length m - p) NUL)"
      unfolding make_bytes_def l tk len by simp
    then show ?thesis unfolding commonPrefix_unfold[OF ne] Inr t by simp
  qed
qed

text \<open>
  C1. On \<^verbatim>\<open>commonPrefix("abcdef", "abcxyz", "abc123")\<close> the function returns the six
  bytes \<^verbatim>\<open>"abc\x00\x00\x00"\<close>: the common part followed by three zero bytes, and not the
  substring \<^verbatim>\<open>"abc"\<close> of the shortest argument up to the first mismatch.
\<close>

theorem commonPrefix_example_nul_padded:
  "commonPrefix [''abcdef'', ''abcxyz'', ''abc123''] = Some (''abc'' @ [NUL, NUL, NUL]) \<and>
   commonPrefix [''abcdef'', ''abcxyz'', ''abc123''] \<noteq> Some ''abc''"
  by code_simp

text \<open>
  C2. For every call with at least one argument, let \<open>m\<close> be a shortest argument. The call
  returns a string as long as \<open>m\<close> (an empty argument makes that length zero); and when
  the comparison stops at a mismatch at position \<open>k\<close>, that is, all arguments agree with
  \<open>m\<close> before \<open>k\<close> and one differs at \<open>k\<close>, the result is the first \<open>k\<close> bytes of \<open>m\<close>
  followed by zero bytes from \<open>k\<close> to the end, not the string cut at \<open>k\<close>.
\<close>

theorem commonPrefix_shortest_length_nul_padding:
  assumes "m \<in> set values" and "\<forall>v\<in>set values. length m \<le> length v"
  shows "\<exists>r. commonPrefix values = Some r \<and> length r = length m \<and>
    (\<forall>k<length m. (\<forall>i<k. \<forall>v\<in>set values. v ! i = m ! i) \<and> (\<exists>v\<in>set values. v ! k \<noteq> m ! k) \<longrightarrow>
        r = take k m @ replicate (length m - k) NUL \<and> r \<noteq> take k m)"
proof -
  from mismatch_position_exists[of m "values"] obtain p where
    p: "p \<le> length m" "\<forall>i<p. agree_at values m i" "p = length m \<or> \<not> agree_at values m p"
    by blast
  let ?r = "take p m @ replicate (length m - p) NUL"
  have r: "commonPrefix values = Some ?r" by (rule commonPrefix_padded[OF assms p])
  have "length ?r = length m" using p(1) by simp
  moreover have "?r = take k m @ replicate (length m - k) NUL \<and> ?r \<noteq> take k m"
    if "k < length m" "\<forall>i<k. \<forall>v\<in>set values. v ! i = m ! i" "\<exists>v\<in>set values. v ! k \<noteq> m ! k" for k
  proof -
    have "commonPrefix values = Some (take k m @ replicate (length m - k) NUL)"
      using that by (intro commonPrefix_padded[OF assms]) (auto simp: agree_at_def)
    with r have "?r = take k m @ replicate (length m - k) NUL" by simp
    moreover have "length (take k m @ replicate (length m - k) NUL) \<noteq> length (take k m)"
      using that(1) by simp
    ultimately show ?thesis by metis
  qed
  ultimately show ?thesis using r by blast
qed

theorem commonPrefix_shortest_length_nul_padding_witness:
  "''abc1'' \<in> set [''abcdef'', ''abc1'', ''abx1z''] \<and>
   list_all (\<lambda>v. length ''abc1'' \<le> length v) [''abcdef'', ''abc1'', ''abx1z''] \<and>
   commonPrefix [''abcdef'', ''abc1'', ''abx1z''] = Some (''ab'' @ [NUL, NUL])"
proof -
  have a: "''abc1'' \<in> set [''abcdef'', ''abc1'', ''abx1z'']" by simp
  have b: "\<forall>v\<in>set [''abcdef'', ''abc1'', ''abx1z'']. length ''abc1'' \<le> length v" by simp
  from commonPrefix_shortest_length_nul_padding[OF a b]
  obtain r where r: "commonPrefix [''abcdef'', ''abc1'', ''abx1z''] = Some r"
    and pad: "\<forall>k<length ''abc1''. (\<forall>i<k. \<forall>v\<in>set [''abcdef'', ''abc1'', ''abx1z'']. v ! i = ''abc1'' ! i) \<and>
        (\<exists>v\<in>set [''abcdef'', ''abc1'', ''abx1z'']. v ! k \<noteq> ''abc1'' ! k) \<longrightarrow>
        r = take k ''abc1'' @ replicate (length ''abc1'' - k) NUL \<and> r \<noteq> take k ''abc1''"
    by blast
  have "r = take 2 ''abc1'' @ replicate (length ''abc1'' - 2) NUL \<and> r \<noteq> take 2 ''abc1''"
    by (rule pad[rule_format, of 2]) (auto simp: less_Suc_eq numeral_2_eq_2)
  then have "r = ''ab'' @ [NUL, NUL]" by (simp add: numeral_2_eq_2)
  with a b r show ?thesis by simp
qed

text \<open>
  C8. Called with no argument, \<^const>\<open>commonPrefix\<close> returns the empty string; and whenever
  some argument is the empty string, it returns the empty string.
\<close>

theorem commonPrefix_empty_cases:
  "commonPrefix [] = Some [] \<and> ([] \<in> set values \<longrightarrow> commonPrefix values = Some [])"
proof (intro conjI impI)
  show "commonPrefix [] = Some []" by (simp add: commonPrefix_def)
next
  assume e: "[] \<in> set values"
  have "commonPrefix values = Some (take 0 [] @ replicate (length ([]::string) - 0) NUL)"
    by (rule commonPrefix_padded[OF e]) simp_all
  then show "commonPrefix values = Some []" by simp
qed

theorem commonPrefix_empty_cases_witness:
  "[] \<in> set [''abc'', [], ''abd''] \<and> commonPrefix [''abc'', [], ''abd''] = Some [] \<and>
   commonPrefix [[], ''abc''] = Some []"
  using commonPrefix_empty_cases[of "[''abc'', [], ''abd'']"]
    commonPrefix_empty_cases[of "[[], ''abc'']"] by simp

section \<open>Properties of readCommentedFile\<close>

lemma scan_loop_empty_marker: "scan_loop rest [] clauses = clauses"
proof (induction rest "[] :: string" clauses rule: scan_loop.induct)
  case (1 rest clauses)
  show ?case
  proof (cases "Scan rest")
    case None
    then show ?thesis by (subst scan_loop.simps) simp
  next
    case (Some a)
    obtain t r where a: "a = (t, r)" by (cases a)
    have hp: "\<And>l. strings_HasPrefix l []" by (simp add: strings_HasPrefix_def)
    have "scan_loop rest [] clauses = scan_loop r [] clauses"
      using Some a hp by (subst scan_loop.simps) (simp add: Let_def)
    also have "\<dots> = clauses"
      using hp by (intro "1.hyps"(1)[OF Some[unfolded a] refl refl refl refl]) simp
    finally show ?thesis .
  qed
qed

lemma bytes_IndexByte_None: "bytes_IndexByte s c = None \<Longrightarrow> c \<notin> set s"
  by (induction s) (auto split: if_splits)

lemma bytes_IndexByte_Some: "bytes_IndexByte s c = Some k \<Longrightarrow> c \<notin> set (take k s)"
  by (induction s arbitrary: k) (auto split: if_splits)











lemma readCommentedFile_opened:
  "os_Open p = (Some content, None) \<Longrightarrow>
   readCommentedFile os_Open p comment = (scan_loop content comment [], None)"
  by (simp add: readCommentedFile_def)

lemma readCommentedFile_failed:
  "snd (os_Open p) \<noteq> None \<Longrightarrow> readCommentedFile os_Open p comment = ([], snd (os_Open p))"
  by (cases "os_Open p") (simp add: readCommentedFile_def)














text \<open>
  C6. \<^const>\<open>readCommentedFile\<close> returns an error exactly when \<^verbatim>\<open>os.Open\<close> returns one;
  then it returns that error and no lines. When the file opens, it returns the lines
  the loop has accumulated and no error.
\<close>

theorem readCommentedFile_error_iff_open_fails:
  "(snd (readCommentedFile os_Open p comment) \<noteq> None \<longleftrightarrow> snd (os_Open p) \<noteq> None) \<and>
   (snd (os_Open p) \<noteq> None \<longrightarrow> readCommentedFile os_Open p comment = ([], snd (os_Open p))) \<and>
   (os_Open p = (Some content, None) \<longrightarrow>
      readCommentedFile os_Open p comment = (scan_loop content comment [], None))"
proof (intro conjI impI)
  show "snd (readCommentedFile os_Open p comment) \<noteq> None \<longleftrightarrow> snd (os_Open p) \<noteq> None"
    by (cases "os_Open p") (auto simp: readCommentedFile_def split: option.splits)
next
  assume "snd (os_Open p) \<noteq> None"
  then show "readCommentedFile os_Open p comment = ([], snd (os_Open p))"
    by (rule readCommentedFile_failed)
next
  assume "os_Open p = (Some content, None)"
  then show "readCommentedFile os_Open p comment = (scan_loop content comment [], None)"
    by (rule readCommentedFile_opened)
qed

theorem readCommentedFile_error_iff_open_fails_witness:
  "readCommentedFile (\<lambda>p. (None, Some (PathError ''no such file''))) ''rules'' ''#'' =
     ([], Some (PathError ''no such file'')) \<and>
   readCommentedFile (\<lambda>p. (Some ''#x\<newline>'', None)) ''rules'' ''#'' = (scan_loop ''#x\<newline>'' ''#'' [], None) \<and>
   snd (readCommentedFile (\<lambda>p. (Some ''#x\<newline>'', None)) ''rules'' ''#'') = None"
  using readCommentedFile_error_iff_open_fails[of "\<lambda>p. (None, Some (PathError ''no such file''))"
      "''rules''" "''#''" "[]"]
    readCommentedFile_error_iff_open_fails[of "\<lambda>p. (Some ''#x\<newline>'', None)" "''rules''" "''#''" "''#x\<newline>''"]
  by simp

text \<open>
  C10. With the empty string as comment marker, every line starts with the marker, so
  a file that opens yields no lines, whatever its content.
\<close>

theorem readCommentedFile_empty_marker:
  "os_Open p = (Some content, None) \<Longrightarrow> readCommentedFile os_Open p [] = ([], None)"
  by (simp add: readCommentedFile_opened scan_loop_empty_marker)

theorem readCommentedFile_empty_marker_witness:
  "readCommentedFile (\<lambda>p. (Some ''keep-this\<newline>keep-that\<newline>'', None)) ''rules'' [] = ([], None)"
  by (rule readCommentedFile_empty_marker[of _ _ "''keep-this\<newline>keep-that\<newline>''"]) simp

section \<open>Properties of remotePathSplit\<close>

lemma bytes_IndexByte_at:
  "bytes_IndexByte s c = Some k \<Longrightarrow> s = take k s @ c # drop (k + 1) s"
  by (induction s arbitrary: k) (auto split: if_splits)

lemma strings_Index_byte: "strings_Index s [c] = bytes_IndexByte s c"
  by (induction s) (auto simp: strings_HasPrefix_def)

lemma strings_Split_byte_None:
  "bytes_IndexByte s c = None \<Longrightarrow> strings_Split s [c] = [s]"
  by (subst strings_Split.simps) (simp add: strings_Index_byte)

lemma strings_Split_byte_Some:
  "bytes_IndexByte s c = Some k \<Longrightarrow> strings_Split s [c] = take k s # strings_Split (drop (k + 1) s) [c]"
  by (subst strings_Split.simps) (simp add: strings_Index_byte)

lemma strings_Split_byte_props:
  "strings_Split s [c] \<noteq> [] \<and> (\<forall>x\<in>set (strings_Split s [c]). c \<notin> set x) \<and>
   strings_Join (strings_Split s [c]) [c] = s \<and>
   (length (strings_Split s [c]) = 1 \<longleftrightarrow> c \<notin> set s)"
proof (induction s "[c]" rule: strings_Split.induct)
  case (1 s)
  show ?case
  proof (cases "bytes_IndexByte s c")
    case None
    then show ?thesis
      using bytes_IndexByte_None[OF None] by (simp add: strings_Split_byte_None)
  next
    case (Some k)
    let ?r = "strings_Split (drop (k + 1) s) [c]"
    have IH: "?r \<noteq> [] \<and> (\<forall>x\<in>set ?r. c \<notin> set x) \<and> strings_Join ?r [c] = drop (k + 1) s"
      using "1.hyps"[of k] Some by (simp add: strings_Index_byte)
    then obtain a as where r: "?r = a # as" by (cases ?r) auto
    have sp: "strings_Split s [c] = take k s # ?r" by (rule strings_Split_byte_Some[OF Some])
    have "c \<in> set s" using bytes_IndexByte_at[OF Some] by (metis in_set_conv_decomp)
    moreover have "strings_Join (take k s # ?r) [c] = s"
      using IH r bytes_IndexByte_at[OF Some] by simp
    ultimately show ?thesis
      using IH r bytes_IndexByte_Some[OF Some] unfolding sp by auto
  qed
qed

lemma strings_Join_snoc:
  "xs \<noteq> [] \<Longrightarrow> strings_Join (xs @ [x]) sep = strings_Join xs sep @ sep @ x"
  by (induction xs sep rule: strings_Join.induct) auto

lemma remotePathSplit_last:
  "remotePathSplit p =
     Some (strings_Join (butlast (strings_Split p ''/'')) ''/'', last (strings_Split p ''/''))"
proof -
  let ?sp = "strings_Split p ''/''"
  have ne: "?sp \<noteq> []" using strings_Split_byte_props[of p "CHR ''/''"] by simp
  then have "take (length ?sp - 1) ?sp = butlast ?sp" by (simp add: butlast_conv_take)
  moreover have "drop (length ?sp - 1) ?sp = [last ?sp]"
    using ne by (metis append_butlast_last_id append_eq_conv_conj length_butlast)
  moreover have "\<not> length ?sp < 1" using ne by (cases ?sp) auto
  ultimately show ?thesis by (simp add: remotePathSplit_def Let_def)
qed

text \<open>
  C7. For every string \<open>p\<close>, \<^const>\<open>remotePathSplit\<close> returns the last component of the
  split of \<open>p\<close> on \<^verbatim>\<open>"/"\<close> as the base and the components before it, joined with
  \<^verbatim>\<open>"/"\<close>, as the directory. The components hold no \<^verbatim>\<open>"/"\<close> and join back to \<open>p\<close>, so
  nothing is normalised: when \<open>p\<close> has a \<^verbatim>\<open>"/"\<close>, \<open>p\<close> is the directory, a \<^verbatim>\<open>"/"\<close> and
  the base; otherwise the directory is empty and the base is \<open>p\<close>.
\<close>

theorem remotePathSplit_components:
  "(\<exists>dir base. remotePathSplit p = Some (dir, base) \<and>
      base = last (strings_Split p ''/'') \<and>
      dir = strings_Join (butlast (strings_Split p ''/'')) ''/'' \<and>
      (\<forall>c\<in>set (strings_Split p ''/''). CHR ''/'' \<notin> set c) \<and>
      strings_Join (strings_Split p ''/'') ''/'' = p \<and>
      (if CHR ''/'' \<in> set p then p = dir @ ''/'' @ base else dir = [] \<and> base = p)) \<and>
   remotePathSplit ''a/b/c'' = Some (''a/b'', ''c'') \<and>
   remotePathSplit ''onlyname'' = Some ([], ''onlyname'') \<and>
   remotePathSplit ''a/'' = Some (''a'', []) \<and>
   remotePathSplit ''a//b/'' = Some (''a//b'', [])"
proof (intro conjI)
  let ?sp = "strings_Split p ''/''"
  have props: "?sp \<noteq> []" "\<forall>x\<in>set ?sp. CHR ''/'' \<notin> set x" "strings_Join ?sp ''/'' = p"
    "length ?sp = 1 \<longleftrightarrow> CHR ''/'' \<notin> set p"
    using strings_Split_byte_props[of p "CHR ''/''"] by simp_all
  have sp: "?sp = butlast ?sp @ [last ?sp]" using props(1) by simp
  have "if CHR ''/'' \<in> set p
        then p = strings_Join (butlast ?sp) ''/'' @ ''/'' @ last ?sp
        else strings_Join (butlast ?sp) ''/'' = [] \<and> last ?sp = p"
  proof (cases "CHR ''/'' \<in> set p")
    case True
    then have "butlast ?sp \<noteq> []"
      using props(1,4) by (cases ?sp) (auto split: if_splits)
    from strings_Join_snoc[OF this, of "last ?sp" "''/''"] sp props(3) True
    show ?thesis by simp
  next
    case False
    then have "length ?sp = 1" using props(4) by simp
    then obtain x where x: "?sp = [x]" by (cases ?sp) auto
    with props(3) False show ?thesis by simp
  qed
  then show "\<exists>dir base. remotePathSplit p = Some (dir, base) \<and>
      base = last ?sp \<and> dir = strings_Join (butlast ?sp) ''/'' \<and>
      (\<forall>c\<in>set ?sp. CHR ''/'' \<notin> set c) \<and> strings_Join ?sp ''/'' = p \<and>
      (if CHR ''/'' \<in> set p then p = dir @ ''/'' @ base else dir = [] \<and> base = p)"
    using props(2,3) remotePathSplit_last[of p] by simp
next
  show "remotePathSplit ''a/b/c'' = Some (''a/b'', ''c'')" by code_simp
next
  show "remotePathSplit ''onlyname'' = Some ([], ''onlyname'')" by code_simp
next
  show "remotePathSplit ''a/'' = Some (''a'', [])" by code_simp
next
  show "remotePathSplit ''a//b/'' = Some (''a//b'', [])" by code_simp
qed

theorem remotePathSplit_components_witness:
  "CHR ''/'' \<in> set ''x/y/'' \<and>
   (\<exists>dir base. remotePathSplit ''x/y/'' = Some (dir, base) \<and> ''x/y/'' = dir @ ''/'' @ base \<and>
      base = last (strings_Split ''x/y/'' ''/''))"
  using remotePathSplit_components[of "''x/y/''"] by simp

section \<open>Properties of serializeAsDesktopEntry\<close>

lemma strings_Replace_byte:
  "n < 0 \<Longrightarrow> strings_Replace s [c] [d] n = map (\<lambda>x. if x = c then d else x) s"
proof (induction s "[c]" "[d]" n rule: strings_Replace.induct)
  case (1 s n)
  show ?case
  proof (cases "c = d")
    case True
    then show ?thesis by (subst strings_Replace.simps) (simp add: map_idI)
  next
    case False
    note cd = this
    show ?thesis
    proof (cases "bytes_IndexByte s c")
      case None
      have "map (\<lambda>x. if x = c then d else x) s = s"
        using bytes_IndexByte_None[OF None] by (intro map_idI) auto
      then show ?thesis
        using cd None "1.prems" by (subst strings_Replace.simps) (simp add: strings_Index_byte)
    next
      case (Some j)
      have "strings_Replace s [c] [d] n =
          take j s @ [d] @ strings_Replace (drop (j + 1) s) [c] [d] (n - 1)"
        using cd Some "1.prems" by (subst strings_Replace.simps) (simp add: strings_Index_byte)
      also have "strings_Replace (drop (j + 1) s) [c] [d] (n - 1) =
          map (\<lambda>x. if x = c then d else x) (drop (j + 1) s)"
        using "1.hyps"(2)[of j] cd Some "1.prems" by (simp add: strings_Index_byte)
      also have "take j s = map (\<lambda>x. if x = c then d else x) (take j s)"
        using bytes_IndexByte_Some[OF Some] by (intro map_idI[symmetric]) auto
      finally have "strings_Replace s [c] [d] n =
          map (\<lambda>x. if x = c then d else x) (take j s @ c # drop (j + 1) s)" by simp
      also have "take j s @ c # drop (j + 1) s = s" using bytes_IndexByte_at[OF Some] by simp
      finally show ?thesis .
    qed
  qed
qed

text \<open>
  C4. When the file is created and the write succeeds, the destination file holds
  exactly the header line and the four lines \<^verbatim>\<open>Icon=\<close>, \<^verbatim>\<open>Name=\<close>, \<^verbatim>\<open>Type=\<close>,
  \<^verbatim>\<open>URL=\<close> in this order; the name is the display name, followed by \<^verbatim>\<open>-\<close> and the
  extension when the extension is not empty, and the icon is the content type with every
  \<^verbatim>\<open>/\<close> replaced by \<^verbatim>\<open>-\<close>. When the file cannot be created, nothing is written. Name
  \<^verbatim>\<open>Doc\<close>, extension \<^verbatim>\<open>pdf\<close> and content type \<^verbatim>\<open>application/pdf\<close> give the icon
  \<^verbatim>\<open>application-pdf\<close> and the name \<^verbatim>\<open>Doc-pdf\<close>.
\<close>

theorem serializeAsDesktopEntry_writes_entry:
  "(create_fault = None \<and> write_fault = None \<longrightarrow>
      (let name_v = (if ext urlMExt \<noteq> [] then Name f @ ''-'' @ ext urlMExt else Name f);
           icon_v = map (\<lambda>c. if c = CHR ''/'' then CHR ''-'' else c) (mimeType urlMExt);
           out = ''[Desktop Entry]\<newline>'' @
                 ''Icon='' @ icon_v @ ''\<newline>'' @
                 ''Name='' @ name_v @ ''\<newline>'' @
                 ''Type='' @ LinkKey @ ''\<newline>'' @
                 ''URL='' @ urlMimeTypeExt.url urlMExt @ ''\<newline>''
       in serializeAsDesktopEntry LinkKey create_fault write_fault fs f destPath urlMExt =
            ((length out, None), fs(destPath \<mapsto> out)))) \<and>
   (\<forall>err. create_fault = Some err \<longrightarrow>
      serializeAsDesktopEntry LinkKey create_fault write_fault fs f destPath urlMExt =
        ((0, Some err), fs)) \<and>
   snd (serializeAsDesktopEntry LinkKey None None Map.empty \<lparr>Name = ''Doc''\<rparr> ''Doc.desktop''
          \<lparr>ext = ''pdf'', mimeType = ''application/pdf'', url = ''http://x/y''\<rparr>) ''Doc.desktop'' =
     Some (''[Desktop Entry]\<newline>Icon=application-pdf\<newline>Name=Doc-pdf\<newline>Type='' @ LinkKey @
           ''\<newline>URL=http://x/y\<newline>'')"
proof -
  have rep: "strings_Replace s UnescapedPathSep MimeTypeJoiner (- 1) =
      map (\<lambda>c. if c = CHR ''/'' then CHR ''-'' else c) s" for s
    unfolding UnescapedPathSep_def MimeTypeJoiner_def by (rule strings_Replace_byte) simp
  have ok: "serializeAsDesktopEntry LinkKey None None fs' f' destPath' u =
      ((length (desktop_entry_text (map (\<lambda>c. if c = CHR ''/'' then CHR ''-'' else c) (mimeType u))
                  (if ext u \<noteq> [] then Name f' @ ''-'' @ ext u else Name f') LinkKey
                  (urlMimeTypeExt.url u)), None),
       fs'(destPath' \<mapsto> desktop_entry_text (map (\<lambda>c. if c = CHR ''/'' then CHR ''-'' else c) (mimeType u))
                  (if ext u \<noteq> [] then Name f' @ ''-'' @ ext u else Name f') LinkKey
                  (urlMimeTypeExt.url u)))" for fs' f' destPath' u
    by (simp add: serializeAsDesktopEntry_def toDesktopEntry_def sepJoin_def rep Let_def)
  show ?thesis
  proof (intro conjI allI impI)
    assume "create_fault = None \<and> write_fault = None"
    then show "let name_v = (if ext urlMExt \<noteq> [] then Name f @ ''-'' @ ext urlMExt else Name f);
           icon_v = map (\<lambda>c. if c = CHR ''/'' then CHR ''-'' else c) (mimeType urlMExt);
           out = ''[Desktop Entry]\<newline>'' @
                 ''Icon='' @ icon_v @ ''\<newline>'' @
                 ''Name='' @ name_v @ ''\<newline>'' @
                 ''Type='' @ LinkKey @ ''\<newline>'' @
                 ''URL='' @ urlMimeTypeExt.url urlMExt @ ''\<newline>''
       in serializeAsDesktopEntry LinkKey create_fault write_fault fs f destPath urlMExt =
            ((length out, None), fs(destPath \<mapsto> out))"
      using ok[of fs f destPath urlMExt] by (simp add: desktop_entry_text_def Let_def)
  next
    fix err assume "create_fault = Some err"
    then show "serializeAsDesktopEntry LinkKey create_fault write_fault fs f destPath urlMExt =
        ((0, Some err), fs)"
      by (simp add: serializeAsDesktopEntry_def)
  next
    show "snd (serializeAsDesktopEntry LinkKey None None Map.empty \<lparr>Name = ''Doc''\<rparr> ''Doc.desktop''
          \<lparr>ext = ''pdf'', mimeType = ''application/pdf'', url = ''http://x/y''\<rparr>) ''Doc.desktop'' =
     Some (''[Desktop Entry]\<newline>Icon=application-pdf\<newline>Name=Doc-pdf\<newline>Type='' @ LinkKey @
           ''\<newline>URL=http://x/y\<newline>'')"
      unfolding ok by (simp add: desktop_entry_text_def)
  qed
qed

theorem serializeAsDesktopEntry_writes_entry_witness:
  "serializeAsDesktopEntry ''Link'' None None [''old'' \<mapsto> ''x''] \<lparr>Name = ''Notes''\<rparr> ''n.desktop''
      \<lparr>ext = [], mimeType = ''text/plain'', url = ''http://h/n''\<rparr> =
     ((68, None),
      [''old'' \<mapsto> ''x'',
       ''n.desktop'' \<mapsto> ''[Desktop Entry]\<newline>Icon=text-plain\<newline>Name=Notes\<newline>Type=Link\<newline>URL=http://h/n\<newline>'']) \<and>
   serializeAsDesktopEntry ''Link'' (Some (PathError ''denied'')) None [''old'' \<mapsto> ''x'']
      \<lparr>Name = ''Notes''\<rparr> ''n.desktop'' \<lparr>ext = [], mimeType = ''text/plain'', url = ''http://h/n''\<rparr> =
     ((0, Some (PathError ''denied'')), [''old'' \<mapsto> ''x''])"
  using serializeAsDesktopEntry_writes_entry[of None None
      "\<lparr>ext = [], mimeType = ''text/plain'', url = ''http://h/n''\<rparr>" "\<lparr>Name = ''Notes''\<rparr>"
      "''Link''" "[''old'' \<mapsto> ''x'']" "''n.desktop''"]
    serializeAsDesktopEntry_writes_entry[of "Some (PathError ''denied'')" None
      "\<lparr>ext = [], mimeType = ''text/plain'', url = ''http://h/n''\<rparr>" "\<lparr>Name = ''Notes''\<rparr>"
      "''Link''" "[''old'' \<mapsto> ''x'']" "''n.desktop''"]
  by (simp add: Let_def)

section \<open>Properties of prettyBytes\<close>

lemma maxLen_5: "maxLen = 5" "length suffixes = 6"
  by (simp_all add: maxLen_def suffixes_def)

lemma describe_loop_unit_loop:
  "i \<le> 5 \<Longrightarrow>
   describe_loop bf i = Some (case spec_unit_loop bf i of (bf', i') \<Rightarrow> format_2f bf' @ suffixes ! i')"
proof (induction bf i rule: describe_loop.induct)
  case (1 bf i)
  show ?case
  proof (cases "bf / 1024 < 1 \<or> i \<ge> 5")
    case True
    then have "spec_unit_loop bf i = (bf, i)" by (subst spec_unit_loop.simps) auto
    moreover have "describe_loop bf i = Some (Sprintf_2f_s bf (suffixes ! i))"
      using True "1.prems" by (subst describe_loop.simps) (auto simp: maxLen_5 BytesPerKB_def)
    ultimately show ?thesis by (simp add: Sprintf_2f_s_def)
  next
    case False
    then have u: "spec_unit_loop bf i = spec_unit_loop (bf / 1024) (i + 1)"
      by (subst spec_unit_loop.simps) auto
    have d: "describe_loop bf i = describe_loop (bf / BytesPerKB) (i + 1)"
      using False by (subst describe_loop.simps) (auto simp: maxLen_5 BytesPerKB_def)
    have "describe_loop (bf / BytesPerKB) (i + 1) =
        Some (case spec_unit_loop (bf / BytesPerKB) (i + 1) of (bf', i') \<Rightarrow> format_2f bf' @ suffixes ! i')"
      using False by (intro "1.IH") (auto simp: maxLen_5 BytesPerKB_def)
    then show ?thesis using u d by (simp add: BytesPerKB_def)
  qed
qed

lemma describe_loop_spec_prettyBytes:
  "describe_loop (float64_of_int64 b) 0 = Some (spec_prettyBytes b)"
  by (simp add: describe_loop_unit_loop spec_prettyBytes_def suffixes_def split: prod.splits)

lemma byteDescription_ok:
  assumes "cache_ok c"
  shows "fst (byteDescription c b) = Some (spec_prettyBytes b)" "cache_ok (snd (byteDescription c b))"
  using assms
  by (auto simp: byteDescription_def describe_loop_spec_prettyBytes cache_ok_def split: option.splits)

lemma cache_after_ok: "cache_ok c \<Longrightarrow> cache_ok (cache_after c bs)"
  by (induction bs arbitrary: c) (simp_all add: byteDescription_ok)

lemma cache_ok_fresh: "cache_ok memoizeBytes"
  by (simp add: cache_ok_def memoizeBytes_def)

lemma cache_after_append: "cache_after c (xs @ ys) = cache_after (cache_after c xs) ys"
  by (induction xs arbitrary: c) simp_all

lemmas pb_eval = prettyBytes_def memoizeBytes_def byteDescription_def float64_of_int64_def
  round_to_53_bits_def BytesPerKB_def suffixes_def maxLen_def Sprintf_2f_s_def format_2f_def
  round_half_even_def digit_def describe_loop.simps Let_def

text \<open>
  C3. After any calls, \<^verbatim>\<open>prettyBytes(b)\<close> returns, for every \<^verbatim>\<open>int64\<close> \<open>b\<close>, the string of
  the claim's procedure: \<open>bf\<close> is \<^verbatim>\<open>float64(b)\<close> and \<open>i\<close> is 0; while \<open>bf / 1024 \<ge> 1\<close> and
  \<open>i\<close> is below the index of \<^verbatim>\<open>PB\<close>, \<open>bf\<close> is divided by 1024 and \<open>i\<close> incremented; the
  result is \<open>bf\<close> with two fractional digits and the \<open>i\<close>-th unit. Beyond the last unit
  the value stays in \<^verbatim>\<open>PB\<close>: \<open>2^60\<close> bytes are \<^verbatim>\<open>1024.00PB\<close>.
\<close>

theorem prettyBytes_spec:
  "prettyBytes history b = Some (spec_prettyBytes b) \<and>
   prettyBytes [] 1023 = Some ''1023.00B'' \<and>
   prettyBytes [] 1024 = Some ''1.00KB'' \<and>
   prettyBytes [] (1024 * 1024) = Some ''1.00MB'' \<and>
   prettyBytes [] (2 ^ 60) = Some ''1024.00PB''"
proof (intro conjI)
  show "prettyBytes history b = Some (spec_prettyBytes b)"
    unfolding prettyBytes_def
    by (intro byteDescription_ok(1) cache_after_ok cache_ok_fresh)
next
  show "prettyBytes [] 1023 = Some ''1023.00B''" by (simp add: pb_eval)
next
  show "prettyBytes [] 1024 = Some ''1.00KB''" by (simp add: pb_eval)
next
  show "prettyBytes [] (1024 * 1024) = Some ''1.00MB''" by (simp add: pb_eval)
next
  show "prettyBytes [] (2 ^ 60) = Some ''1024.00PB''" by (simp add: pb_eval)
qed

theorem prettyBytes_spec_witness:
  "prettyBytes [1024, 5] 1536 = Some (spec_prettyBytes 1536) \<and> spec_prettyBytes 1536 = ''1.50KB''"
proof -
  have "spec_prettyBytes 1536 = ''1.50KB''"
    by (simp add: pb_eval spec_prettyBytes_def spec_unit_loop.simps)
  then show ?thesis using prettyBytes_spec[of "[1024, 5]" 1536] by simp
qed

text \<open>
  C9. Whatever the cache \<open>c\<close> of a formatter, a call with \<open>b\<close> returns a string \<open>d\<close> and
  leaves a cache that maps \<open>b\<close> to \<open>d\<close>; a second call with \<open>b\<close> returns the same \<open>d\<close> and
  leaves the cache as it is. No entry is ever removed or changed; on a miss the computed
  description is stored under \<open>b\<close>; and a cached string is returned as it is, whatever
  string it is, so a hit computes nothing.
\<close>

theorem byteDescription_memoized:
  "\<exists>d c1. byteDescription c b = (Some d, c1) \<and> c1 b = Some d \<and>
     byteDescription c1 b = (Some d, c1) \<and>
     (\<forall>k v. c k = Some v \<longrightarrow> c1 k = Some v) \<and>
     (c b = None \<longrightarrow> describe_loop (float64_of_int64 b) 0 = Some d \<and> c1 = c(b \<mapsto> d)) \<and>
     (\<forall>c' d'. byteDescription (c'(b \<mapsto> d')) b = (Some d', c'(b \<mapsto> d')))"
proof (cases "c b")
  case None
  let ?d = "spec_prettyBytes b"
  let ?c1 = "c(b \<mapsto> ?d)"
  have 1: "byteDescription c b = (Some ?d, ?c1)"
    using None by (simp add: byteDescription_def describe_loop_spec_prettyBytes)
  have 2: "?c1 b = Some ?d" by simp
  have 3: "byteDescription ?c1 b = (Some ?d, ?c1)" by (simp add: byteDescription_def)
  have 4: "\<forall>k v. c k = Some v \<longrightarrow> ?c1 k = Some v" using None by simp
  have 5: "c b = None \<longrightarrow> describe_loop (float64_of_int64 b) 0 = Some ?d \<and> ?c1 = c(b \<mapsto> ?d)"
    by (simp add: describe_loop_spec_prettyBytes)
  have 6: "\<forall>c' d'. byteDescription (c'(b \<mapsto> d')) b = (Some d', c'(b \<mapsto> d'))"
    by (simp add: byteDescription_def)
  show ?thesis by (intro exI[of _ ?d] exI[of _ ?c1] conjI 1 2 3 4 5 6)
next
  case (Some d)
  have 1: "byteDescription c b = (Some d, c)" using Some by (simp add: byteDescription_def)
  have 6: "\<forall>c' d'. byteDescription (c'(b \<mapsto> d')) b = (Some d', c'(b \<mapsto> d'))"
    by (simp add: byteDescription_def)
  have 4: "\<forall>k v. c k = Some v \<longrightarrow> c k = Some v" by simp
  have 5: "c b = None \<longrightarrow> describe_loop (float64_of_int64 b) 0 = Some d \<and> c = c(b \<mapsto> d)"
    using Some by simp
  show ?thesis by (intro exI[of _ d] exI[of _ c] conjI 1 Some 4 5 6)
qed

theorem byteDescription_memoized_witness:
  "\<exists>d c1. byteDescription [1024 \<mapsto> ''cached''] 2048 = (Some d, c1) \<and> c1 2048 = Some d \<and>
     byteDescription c1 2048 = (Some d, c1) \<and> c1 1024 = Some ''cached'' \<and>
     describe_loop (float64_of_int64 2048) 0 = Some d"
proof -
  have n: "[1024 \<mapsto> ''cached''] (2048 :: int64) = None" by simp
  from byteDescription_memoized[of "[1024 \<mapsto> ''cached'']" 2048]
  obtain d c1 where a: "byteDescription [1024 \<mapsto> ''cached''] 2048 = (Some d, c1)" "c1 2048 = Some d"
    "byteDescription c1 2048 = (Some d, c1)"
    "\<forall>k v. [1024 \<mapsto> ''cached''] k = Some v \<longrightarrow> c1 k = Some v"
    "[1024 \<mapsto> ''cached''] (2048 :: int64) = None \<longrightarrow>
       describe_loop (float64_of_int64 2048) 0 = Some d \<and> c1 = [1024 \<mapsto> ''cached''](2048 \<mapsto> d)"
    by (elim exE conjE) (rule that)
  have "c1 1024 = Some ''cached''" using a(4) by simp
  moreover have "describe_loop (float64_of_int64 2048) 0 = Some d" using a(5) n by simp
  ultimately show ?thesis using a(1,2,3) by (intro exI[of _ d] exI[of _ c1] conjI)
qed

end
